theory Spec2Isabelle
  imports Complex_Main "HOL-Library.Multiset"
begin

section \<open>Data model\<close>

text \<open>
  The scripts work on the message objects of the MIDI library they import.  The code
  only ever reads \<^verbatim>\<open>msg.type\<close>, \<^verbatim>\<open>msg.is_meta\<close>, \<^verbatim>\<open>msg.time\<close>,
  \<^verbatim>\<open>hasattr(msg, 'channel')\<close>, \<^verbatim>\<open>msg.channel\<close>, \<^verbatim>\<open>msg.note\<close> and
  \<^verbatim>\<open>msg.velocity\<close>, so a message is its delta time together with a body that fixes
  which of these attributes exist.  Integers are Python integers, hence \<open>int\<close>.

  \<^item> \<open>NoteOn channel note velocity\<close>, \<open>NoteOff channel note velocity\<close>,
    \<open>ControlChange channel control value\<close>, \<open>ProgramChange channel program\<close>;
  \<^item> \<open>ChannelOther type channel data\<close>: the remaining messages with a channel
    (polytouch, aftertouch, pitchwheel);
  \<^item> \<open>SystemMsg type data\<close>: messages that are not meta and have no channel
    (system exclusive, clock, ...);
  \<^item> \<open>Meta type channel data\<close>: meta messages; the optional channel is the
    \<^verbatim>\<open>channel\<close> attribute that the channel-prefix meta event carries.
\<close>

datatype body =
    NoteOn int int int
  | NoteOff int int int
  | ControlChange int int int
  | ProgramChange int int
  | ChannelOther string int "int list"
  | SystemMsg string "int list"
  | Meta string "int option" "int list"

record message =
  time :: int
  body :: body

type_synonym track = "message list"

text \<open>\<^verbatim>\<open>msg.is_meta\<close>\<close>

fun is_meta_body :: "body \<Rightarrow> bool" where
  "is_meta_body (Meta ty c d) = True"
| "is_meta_body b = False"

definition is_meta :: "message \<Rightarrow> bool" where
  "is_meta msg = is_meta_body (body msg)"

text \<open>\<^verbatim>\<open>msg.channel\<close>, \<open>None\<close> when \<^verbatim>\<open>hasattr(msg, 'channel')\<close> is false.\<close>

fun body_channel :: "body \<Rightarrow> int option" where
  "body_channel (NoteOn c n v) = Some c"
| "body_channel (NoteOff c n v) = Some c"
| "body_channel (ControlChange c k v) = Some c"
| "body_channel (ProgramChange c p) = Some c"
| "body_channel (ChannelOther ty c d) = Some c"
| "body_channel (SystemMsg ty d) = None"
| "body_channel (Meta ty c d) = c"

definition msg_channel :: "message \<Rightarrow> int option" where
  "msg_channel msg = body_channel (body msg)"

text \<open>The end-of-track meta message \<^verbatim>\<open>MetaMessage('end_of_track', time=0)\<close>.\<close>

definition end_of_track :: message where
  "end_of_track = \<lparr>time = 0, body = Meta ''end_of_track'' None []\<rparr>"

section \<open>Event timeline\<close>

text \<open>
  \<^verbatim>\<open>get_abs_times\<close> of \<^verbatim>\<open>merge_drum_tracks\<close>: the running sum of the delta times,
  each message copied with \<^verbatim>\<open>time=0\<close>.  The accumulator is the loop variable
  \<^verbatim>\<open>abs_time\<close>.
\<close>

fun get_abs_times_from :: "int \<Rightarrow> message list \<Rightarrow> (int \<times> message) list" where
  "get_abs_times_from abs_time [] = []"
| "get_abs_times_from abs_time (msg # messages) =
     (abs_time + time msg, msg\<lparr>time := 0\<rparr>)
       # get_abs_times_from (abs_time + time msg) messages"

definition get_abs_times :: "message list \<Rightarrow> (int \<times> message) list" where
  "get_abs_times messages = get_abs_times_from 0 messages"

text \<open>
  The loop that converts back to delta times (the end of \<^verbatim>\<open>merge_drum_tracks\<close>, and
  twice in \<^verbatim>\<open>convert_type0_to_type1\<close>): \<^verbatim>\<open>msg.time = abs_time - last_time\<close>, with
  \<^verbatim>\<open>last_time\<close> starting at 0.  The source has no check and no raise in this loop.
\<close>

fun to_relative_from :: "int \<Rightarrow> (int \<times> message) list \<Rightarrow> message list" where
  "to_relative_from last_time [] = []"
| "to_relative_from last_time ((abs_time, msg) # rest) =
     msg\<lparr>time := abs_time - last_time\<rparr> # to_relative_from abs_time rest"

definition to_relative :: "(int \<times> message) list \<Rightarrow> message list" where
  "to_relative combined = to_relative_from 0 combined"

text \<open>
  \<^verbatim>\<open>combined.sort(key=lambda x: x[0])\<close>: Python's list sort is stable, and a stable sort
  by a key has exactly one result, the one insertion sort computes.
\<close>

definition sort_by_abs_time :: "(int \<times> message) list \<Rightarrow> (int \<times> message) list" where
  "sort_by_abs_time combined = sort_key fst combined"

section \<open>Drum merger\<close>

text \<open>
  The test \<^verbatim>\<open>msg.type == 'note_on' and msg.velocity > 0\<close> and, when it holds, the
  dictionary key \<^verbatim>\<open>(abs_time, msg.note)\<close>.
\<close>

definition is_onset :: "message \<Rightarrow> bool" where
  "is_onset msg = (case body msg of NoteOn c n v \<Rightarrow> 0 < v | _ \<Rightarrow> False)"

text \<open>\<^verbatim>\<open>msg.note\<close> of a note message.\<close>

definition msg_note :: "message \<Rightarrow> int option" where
  "msg_note msg =
     (case body msg of NoteOn c n v \<Rightarrow> Some n | NoteOff c n v \<Rightarrow> Some n | _ \<Rightarrow> None)"

definition onset_key :: "int \<Rightarrow> message \<Rightarrow> (int \<times> int) option" where
  "onset_key abs_time msg =
     (case body msg of
        NoteOn c n v \<Rightarrow> if 0 < v then Some (abs_time, n) else None
      | _ \<Rightarrow> None)"

text \<open>The dictionary \<^verbatim>\<open>track6_note_times\<close>, filled by the loop over \<^verbatim>\<open>track6_abs\<close>.\<close>

fun note_times :: "(int \<times> message) list \<Rightarrow> (int \<times> int \<rightharpoonup> bool) \<Rightarrow> (int \<times> int \<rightharpoonup> bool)" where
  "note_times [] d = d"
| "note_times ((abs_time, msg) # rest) d =
     (case onset_key abs_time msg of
        Some key \<Rightarrow> note_times rest (d(key \<mapsto> True))
      | None \<Rightarrow> note_times rest d)"

text \<open>The loop that builds \<^verbatim>\<open>filtered_track5\<close>.\<close>

fun filter_track5 :: "(int \<times> int \<rightharpoonup> bool) \<Rightarrow> (int \<times> message) list \<Rightarrow> (int \<times> message) list" where
  "filter_track5 d [] = []"
| "filter_track5 d ((abs_time, msg) # rest) =
     (case onset_key abs_time msg of
        Some key \<Rightarrow>
          if d key = None then (abs_time, msg) # filter_track5 d rest
          else filter_track5 d rest
      | None \<Rightarrow> (abs_time, msg) # filter_track5 d rest)"

definition merge_drum_tracks :: "message list \<Rightarrow> message list \<Rightarrow> message list" where
  "merge_drum_tracks track5_msgs track6_msgs =
     (let track5_abs = get_abs_times track5_msgs;
          track6_abs = get_abs_times track6_msgs;
          track6_note_times = note_times track6_abs Map.empty;
          filtered_track5 = filter_track5 track6_note_times track5_abs;
          combined = sort_by_abs_time (filtered_track5 @ track6_abs)
      in to_relative combined)"

text \<open>The messages a time-stamped sequence holds at absolute tick \<open>k\<close>, in order.\<close>

definition events_at :: "int \<Rightarrow> (int \<times> message) list \<Rightarrow> message list" where
  "events_at k xs = map snd (filter (\<lambda>x. fst x = k) xs)"

section \<open>Track classifier and track selector\<close>

text \<open>
  The dictionaries of \<^verbatim>\<open>process_files\<close>.  They are created with the keys
  \<^verbatim>\<open>index\<close>, \<^verbatim>\<open>track\<close> and \<^verbatim>\<open>events\<close>; the kept ones later get the key
  \<^verbatim>\<open>channel\<close>, and the keys \<^verbatim>\<open>old_channel\<close>, \<^verbatim>\<open>moved_from\<close>,
  \<^verbatim>\<open>swapped_from\<close> and \<^verbatim>\<open>is_bass\<close> when a step sets them (\<open>None\<close> and
  \<open>False\<close> stand for an absent key).  Each dictionary holds its own track object, so
  the in-place changes of the messages of one track are changes of that record only.
\<close>

record track_entry =
  index :: int
  track :: "message list"
  events :: int

record track_info = track_entry +
  channel :: int
  old_channel :: "int option"
  moved_from :: "int option"
  swapped_from :: "int option"
  is_bass :: bool

text \<open>\<^verbatim>\<open>count_track_events\<close>: the loop with its counter \<^verbatim>\<open>count\<close>, here \<open>cnt\<close>.\<close>

fun count_track_events_from :: "int \<Rightarrow> message list \<Rightarrow> int" where
  "count_track_events_from cnt [] = cnt"
| "count_track_events_from cnt (msg # rest) =
     (if \<not> is_meta msg then count_track_events_from (cnt + 1) rest
      else count_track_events_from cnt rest)"

definition count_track_events :: "message list \<Rightarrow> int" where
  "count_track_events tr = count_track_events_from 0 tr"

text \<open>\<^verbatim>\<open>get_track_channel\<close>: the channel of the first message that has one, else 999.\<close>

fun get_track_channel :: "message list \<Rightarrow> int" where
  "get_track_channel [] = 999"
| "get_track_channel (msg # rest) =
     (case msg_channel msg of Some c \<Rightarrow> c | None \<Rightarrow> get_track_channel rest)"

text \<open>The list \<^verbatim>\<open>track_info\<close> that \<^verbatim>\<open>process_files\<close> builds with \<^verbatim>\<open>enumerate\<close>.\<close>

definition build_track_info :: "message list list \<Rightarrow> track_entry list" where
  "build_track_info tracks =
     map (\<lambda>(i, tr). \<lparr>index = int i, track = tr, events = count_track_events tr\<rparr>)
       (enumerate 0 tracks)"

text \<open>
  \<^verbatim>\<open>substantial_tracks.sort(key=lambda x: x['events'], reverse=True)\<close>.  Python's sort
  stays stable under \<^verbatim>\<open>reverse=True\<close> (elements with equal keys keep their order), so
  on integer keys it is the stable ascending sort by the negated key.
\<close>

definition sort_by_events_desc :: "('a track_entry_scheme) list \<Rightarrow> ('a track_entry_scheme) list" where
  "sort_by_events_desc ts = sort_key (\<lambda>t. - events t) ts"

text \<open>The slice \<^verbatim>\<open>xs[:n]\<close>; a negative \<open>n\<close> counts from the end.\<close>

definition slice_to :: "int \<Rightarrow> 'a list \<Rightarrow> 'a list" where
  "slice_to n xs =
     (if 0 \<le> n then take (nat n) xs else take (length xs - nat (- n)) xs)"

text \<open>
  The selection of \<^verbatim>\<open>process_files\<close>: filter by \<^verbatim>\<open>min_events\<close>, sort, keep the
  first \<^verbatim>\<open>max_tracks\<close>; with it the number of removed tracks \<^verbatim>\<open>removed_empty\<close>.
\<close>

definition select_top_tracks ::
  "int \<Rightarrow> int \<Rightarrow> ('a track_entry_scheme) list \<Rightarrow> ('a track_entry_scheme) list \<times> int" where
  "select_top_tracks min_events max_tracks track_info =
     (let substantial_tracks = filter (\<lambda>t. min_events \<le> events t) track_info;
          removed_empty = int (length track_info) - int (length substantial_tracks);
          top_tracks = slice_to max_tracks (sort_by_events_desc substantial_tracks)
      in (top_tracks, removed_empty))"

text \<open>The loop \<^verbatim>\<open>t['channel'] = self.get_track_channel(t['track'])\<close>.\<close>

definition with_channel :: "track_entry \<Rightarrow> track_info" where
  "with_channel t =
     \<lparr>index = index t, track = track t, events = events t,
      channel = get_track_channel (track t), old_channel = None, moved_from = None,
      swapped_from = None, is_bass = False\<rparr>"

section \<open>Channel standardizer\<close>

text \<open>\<^verbatim>\<open>if hasattr(msg, 'channel'): msg.channel = new_ch\<close>\<close>

fun set_body_channel :: "int \<Rightarrow> body \<Rightarrow> body" where
  "set_body_channel new_ch (NoteOn c n v) = NoteOn new_ch n v"
| "set_body_channel new_ch (NoteOff c n v) = NoteOff new_ch n v"
| "set_body_channel new_ch (ControlChange c k v) = ControlChange new_ch k v"
| "set_body_channel new_ch (ProgramChange c p) = ProgramChange new_ch p"
| "set_body_channel new_ch (ChannelOther ty c d) = ChannelOther ty new_ch d"
| "set_body_channel new_ch (SystemMsg ty d) = SystemMsg ty d"
| "set_body_channel new_ch (Meta ty None d) = Meta ty None d"
| "set_body_channel new_ch (Meta ty (Some c) d) = Meta ty (Some new_ch) d"

definition set_channel :: "int \<Rightarrow> message \<Rightarrow> message" where
  "set_channel new_ch msg = msg\<lparr>body := set_body_channel new_ch (body msg)\<rparr>"

definition remap_track :: "int \<Rightarrow> message list \<Rightarrow> message list" where
  "remap_track new_ch tr = map (set_channel new_ch) tr"

definition melodic_channels :: "int list" where
  "melodic_channels = [0, 1, 2, 3]"

definition drum_channel :: int where
  "drum_channel = 9"

text \<open>The loop over \<^verbatim>\<open>drum_tracks\<close>.\<close>

definition process_drum_track :: "track_info \<Rightarrow> track_info" where
  "process_drum_track t =
     (let old_ch = channel t in
      if old_ch \<noteq> 9
      then t\<lparr>track := remap_track 9 (track t), old_channel := Some old_ch, channel := 9\<rparr>
      else t)"

text \<open>The loop over \<^verbatim>\<open>melodic_tracks\<close>, with the cursor \<^verbatim>\<open>next_melodic_idx\<close>.\<close>

fun process_melodic_tracks :: "nat \<Rightarrow> track_info list \<Rightarrow> track_info list" where
  "process_melodic_tracks next_melodic_idx [] = []"
| "process_melodic_tracks next_melodic_idx (t # rest) =
     (let old_ch = channel t in
      if old_ch \<notin> set melodic_channels \<or> old_ch = 999
      then (let new_ch = melodic_channels ! (next_melodic_idx mod length melodic_channels)
            in t\<lparr>track := remap_track new_ch (track t), old_channel := Some old_ch,
                 channel := new_ch\<rparr>
               # process_melodic_tracks (next_melodic_idx + 1) rest)
      else t # process_melodic_tracks (next_melodic_idx + 1) rest)"

definition standardize_channels :: "track_info list \<Rightarrow> track_info list" where
  "standardize_channels tracks =
     (let drum_tracks = filter (\<lambda>t. channel t = 9) tracks;
          melodic_tracks = filter (\<lambda>t. channel t \<noteq> 9) tracks
      in map process_drum_track drum_tracks @ process_melodic_tracks 0 melodic_tracks)"

section \<open>Bass relocator\<close>

text \<open>
  The inner loop of \<^verbatim>\<open>detect_bass_track\<close>: the pair is
  \<^verbatim>\<open>(bass_count, total_notes)\<close>.  Every note-on message has a note.
\<close>

fun count_bass_notes :: "message list \<Rightarrow> int \<times> int \<Rightarrow> int \<times> int" where
  "count_bass_notes [] acc = acc"
| "count_bass_notes (msg # rest) (bass_count, total_notes) =
     (case body msg of
        NoteOn c n v \<Rightarrow>
          count_bass_notes rest (if n < 48 then bass_count + 1 else bass_count, total_notes + 1)
      | _ \<Rightarrow> count_bass_notes rest (bass_count, total_notes))"

text \<open>
  The outer loop: the state is \<^verbatim>\<open>(bass_track_idx, max_bass_notes)\<close>, and
  \<^verbatim>\<open>bass_track\<close> is the entry at that index.  The quotient
  \<^verbatim>\<open>bass_count / total_notes\<close> is compared with one half exactly; the double-precision
  quotient of the source decides the same for every count below \<open>2 ^ 52\<close>.
\<close>

fun find_bass_track :: "nat \<Rightarrow> track_info list \<Rightarrow> nat option \<times> int \<Rightarrow> nat option \<times> int" where
  "find_bass_track idx [] st = st"
| "find_bass_track idx (t # rest) (bass_track_idx, max_bass_notes) =
     (if channel t = 9 \<or> channel t = 999
      then find_bass_track (idx + 1) rest (bass_track_idx, max_bass_notes)
      else (case count_bass_notes (track t) (0, 0) of
              (bass_count, total_notes) \<Rightarrow>
                if 0 < total_notes
                   \<and> (1 / 2 :: real) < real_of_int bass_count / real_of_int total_notes
                   \<and> max_bass_notes < bass_count
                then find_bass_track (idx + 1) rest (Some idx, bass_count)
                else find_bass_track (idx + 1) rest (bass_track_idx, max_bass_notes)))"

text \<open>The search for a track on channel 1 other than the bass track; it stops at the first.\<close>

fun find_channel_1 :: "nat \<Rightarrow> track_info list \<Rightarrow> nat \<Rightarrow> nat option" where
  "find_channel_1 idx [] bass_track_idx = None"
| "find_channel_1 idx (t # rest) bass_track_idx =
     (if channel t = 1 \<and> idx \<noteq> bass_track_idx then Some idx
      else find_channel_1 (idx + 1) rest bass_track_idx)"

definition detect_bass_track :: "track_info list \<Rightarrow> track_info list" where
  "detect_bass_track tracks =
     (case fst (find_bass_track 0 tracks (None, 0)) of
        None \<Rightarrow> tracks
      | Some bass_track_idx \<Rightarrow>
          (let bass_track = tracks ! bass_track_idx in
           if channel bass_track \<noteq> 1
           then (let old_ch = channel bass_track;
                     moved = bass_track\<lparr>track := remap_track 1 (track bass_track),
                               channel := 1, moved_from := Some old_ch, is_bass := True\<rparr>
                 in case find_channel_1 0 tracks bass_track_idx of
                      Some channel_1_idx \<Rightarrow>
                        (let channel_1_track = tracks ! channel_1_idx
                         in (tracks[bass_track_idx := moved])
                              [channel_1_idx :=
                                 channel_1_track\<lparr>track := remap_track old_ch (track channel_1_track),
                                   channel := old_ch, swapped_from := Some 1\<rparr>])
                    | None \<Rightarrow> tracks[bass_track_idx := moved])
           else tracks))"

text \<open>
  The two reassignment steps as \<^verbatim>\<open>process_files\<close> runs them:
  \<^verbatim>\<open>standardize_channels\<close>, then \<^verbatim>\<open>detect_bass_track\<close>.
\<close>

definition reassign_channels :: "track_info list \<Rightarrow> track_info list" where
  "reassign_channels top_tracks = detect_bass_track (standardize_channels top_tracks)"

section \<open>Channel splitter\<close>

text \<open>
  A MIDI file object: \<^verbatim>\<open>mid.type\<close>, \<^verbatim>\<open>mid.ticks_per_beat\<close> and
  \<^verbatim>\<open>mid.tracks\<close>.
\<close>

record midi_file =
  file_type :: int
  ticks_per_beat :: int
  file_tracks :: "message list list"

datatype error = IndexError

text \<open>
  Indexing a Python list of length \<open>n\<close>: indices from \<open>- n\<close> to \<open>- 1\<close> count from the
  end, anything outside \<open>- n, \<dots>, n - 1\<close> raises \<^verbatim>\<open>IndexError\<close>.
\<close>

definition list_index :: "nat \<Rightarrow> int \<Rightarrow> error + nat" where
  "list_index n i =
     (if 0 \<le> i \<and> i < int n then Inr (nat i)
      else if - int n \<le> i \<and> i < 0 then Inr (nat (int n + i))
      else Inl IndexError)"

text \<open>
  The first loop of \<^verbatim>\<open>convert_type0_to_type1\<close>.  The state is
  \<^verbatim>\<open>(channel_messages, meta_messages)\<close>; a meta message is copied with its time, a
  message with a channel is copied with \<^verbatim>\<open>time=0\<close> into the list of its channel, and a
  message that is not meta and has no channel is not copied.
\<close>

fun split_messages ::
  "int \<Rightarrow> message list \<Rightarrow> (int \<times> message) list list \<times> (int \<times> message) list
     \<Rightarrow> error + ((int \<times> message) list list \<times> (int \<times> message) list)" where
  "split_messages current_time [] st = Inr st"
| "split_messages current_time (msg # rest) (channel_messages, meta_messages) =
     (if is_meta msg
      then split_messages (current_time + time msg) rest
             (channel_messages, meta_messages @ [(current_time + time msg, msg)])
      else (case msg_channel msg of
              Some c \<Rightarrow>
                (case list_index (length channel_messages) c of
                   Inl e \<Rightarrow> Inl e
                 | Inr i \<Rightarrow>
                     split_messages (current_time + time msg) rest
                       (channel_messages
                          [i := channel_messages ! i @ [(current_time + time msg, msg\<lparr>time := 0\<rparr>)]],
                        meta_messages))
            | None \<Rightarrow>
                split_messages (current_time + time msg) rest (channel_messages, meta_messages)))"

text \<open>The track built for one channel: sorted, converted to delta times, end of track added.\<close>

definition channel_track :: "(int \<times> message) list \<Rightarrow> message list" where
  "channel_track msgs = to_relative (sort_by_abs_time msgs) @ [end_of_track]"

text \<open>\<^verbatim>\<open>mid.tracks[0]\<close> raises \<^verbatim>\<open>IndexError\<close> on a file without tracks.\<close>

definition convert_type0_to_type1 :: "midi_file \<Rightarrow> error + midi_file" where
  "convert_type0_to_type1 mid =
     (case file_tracks mid of
        [] \<Rightarrow> Inl IndexError
      | original_track # others \<Rightarrow>
          (case split_messages 0 original_track (replicate 16 [], []) of
             Inl e \<Rightarrow> Inl e
           | Inr (channel_messages, meta_messages) \<Rightarrow>
               Inr \<lparr>file_type = 1, ticks_per_beat = ticks_per_beat mid,
                    file_tracks =
                      (if meta_messages \<noteq> [] then [to_relative meta_messages] else [])
                      @ map (\<lambda>ch. channel_track (channel_messages ! ch))
                          (filter (\<lambda>ch. channel_messages ! ch \<noteq> []) [0..<16])\<rparr>))"

section \<open>Vocabulary of the properties and example inputs\<close>

text \<open>
  The order the selector's result is in: more events first, and among tracks with the same
  number of events the smaller original index first.
\<close>

definition ranked_before :: "('a track_entry_scheme) \<Rightarrow> ('a track_entry_scheme) \<Rightarrow> bool" where
  "ranked_before a b \<longleftrightarrow> events b < events a \<or> (events a = events b \<and> index a < index b)"

text \<open>A track of \<open>n\<close> note-ons of one note on one channel, and a track of one meta message.\<close>

definition notes_track :: "nat \<Rightarrow> int \<Rightarrow> int \<Rightarrow> message list" where
  "notes_track n c k = replicate n \<lparr>time = 10, body = NoteOn c k 100\<rparr>"

definition name_track :: "message list" where
  "name_track = [\<lparr>time = 0, body = Meta ''track_name'' None []\<rparr>]"

text \<open>Six tracks whose first channels are 0, 7, 1, 8, 9 and none.\<close>

definition example_tracks :: "message list list" where
  "example_tracks =
     [notes_track 3 0 60, notes_track 1 7 62, notes_track 2 1 64, notes_track 2 8 65,
      notes_track 4 9 36, name_track]"

text \<open>
  The tracks the bass search passes over, and the two things the search reads of a track:
  whether it is passed over and its note counts.
\<close>

definition skipped :: "track_info \<Rightarrow> bool" where
  "skipped t \<longleftrightarrow> channel t = 9 \<or> channel t = 999"

definition same_bass_profile :: "track_info \<Rightarrow> track_info \<Rightarrow> bool" where
  "same_bass_profile a b \<longleftrightarrow>
     skipped a = skipped b \<and> count_bass_notes (track a) (0, 0) = count_bass_notes (track b) (0, 0)"

text \<open>
  The bass track after its move to channel 1, and the former occupant of channel 1 after
  the swap, as \<^verbatim>\<open>detect_bass_track\<close> writes them.
\<close>

definition moved_bass :: "track_info \<Rightarrow> track_info" where
  "moved_bass t = t\<lparr>track := remap_track 1 (track t), channel := 1,
                    moved_from := Some (channel t), is_bass := True\<rparr>"

definition swapped_out :: "int \<Rightarrow> track_info \<Rightarrow> track_info" where
  "swapped_out old_ch t = t\<lparr>track := remap_track old_ch (track t), channel := old_ch,
                    swapped_from := Some 1\<rparr>"

text \<open>Four tracks on channels 0, 1, 2 and 1; the third plays below note 48.\<close>

definition example_bass_tracks :: "track_info list" where
  "example_bass_tracks =
     map with_channel (build_track_info
       [notes_track 2 0 60, notes_track 2 1 61, notes_track 2 2 40, notes_track 2 1 62])"

text \<open>
  The channels the messages of a track carry; a track all of whose messages with a channel
  are on the channel of its entry; and the entries off channel 9 having pairwise
  different channels.
\<close>

definition active_channels :: "track_info \<Rightarrow> int list" where
  "active_channels t = remdups (List.map_filter msg_channel (track t))"

definition on_own_channel :: "track_info \<Rightarrow> bool" where
  "on_own_channel t \<longleftrightarrow>
     list_all (\<lambda>m. case msg_channel m of None \<Rightarrow> True | Some c \<Rightarrow> c = channel t) (track t)"

definition melodic_distinct :: "track_info list \<Rightarrow> bool" where
  "melodic_distinct ts \<longleftrightarrow> distinct (map channel (filter (\<lambda>t. channel t \<noteq> 9) ts))"

text \<open>
  Two kinds of input to the reassignment: the entries off channel 9 are already on
  pairwise different channels among 0, 1, 2, 3; or there are at most four of them and none
  is on one of these channels.
\<close>

definition melodic_already_distinct :: "track_info list \<Rightarrow> bool" where
  "melodic_already_distinct ts \<longleftrightarrow>
     list_all (\<lambda>t. channel t \<in> set melodic_channels) (filter (\<lambda>t. channel t \<noteq> 9) ts)
     \<and> distinct (map channel (filter (\<lambda>t. channel t \<noteq> 9) ts))"

definition melodic_all_remapped :: "track_info list \<Rightarrow> bool" where
  "melodic_all_remapped ts \<longleftrightarrow>
     list_all (\<lambda>t. channel t \<notin> set melodic_channels) (filter (\<lambda>t. channel t \<noteq> 9) ts)
     \<and> length (filter (\<lambda>t. channel t \<noteq> 9) ts) \<le> 4"

text \<open>
  Three single-channel tracks on channels 5, 9 and 7, the first one a bass part; and two
  tracks that both start on channel 0, the first with a message on channel 5 as well.
\<close>

definition bass_first_tracks :: "track_info list" where
  "bass_first_tracks =
     map with_channel (build_track_info
       [notes_track 3 5 40, notes_track 2 9 36, notes_track 2 7 60])"

definition shared_channel_tracks :: "track_info list" where
  "shared_channel_tracks =
     map with_channel (build_track_info
       [[\<lparr>time = 0, body = NoteOn 0 60 100\<rparr>, \<lparr>time = 10, body = NoteOn 5 64 100\<rparr>],
        [\<lparr>time = 0, body = NoteOn 0 62 100\<rparr>]])"

text \<open>
  The meta messages of a track and its messages on channel \<open>c\<close> that are not meta, each
  with its absolute tick, in track order.
\<close>

definition meta_events :: "message list \<Rightarrow> (int \<times> message) list" where
  "meta_events tr = filter (\<lambda>x. is_meta (snd x)) (get_abs_times tr)"

definition channel_events :: "int \<Rightarrow> message list \<Rightarrow> (int \<times> message) list" where
  "channel_events c tr =
     filter (\<lambda>x. \<not> is_meta (snd x) \<and> msg_channel (snd x) = Some c) (get_abs_times tr)"

text \<open>
  Every message of the track that is not meta and has a channel has it in \<open>0, \<dots>, 15\<close>,
  as the MIDI library guarantees for the messages it builds.
\<close>

definition valid_channels :: "message list \<Rightarrow> bool" where
  "valid_channels tr \<longleftrightarrow>
     list_all (\<lambda>m. is_meta m \<or> (case msg_channel m of None \<Rightarrow> True | Some c \<Rightarrow> 0 \<le> c \<and> c < 16)) tr"

text \<open>A time-stamped sequence with the delta time of every message set to 0.\<close>

definition zero_times :: "(int \<times> message) list \<Rightarrow> (int \<times> message) list" where
  "zero_times xs = map (\<lambda>x. (fst x, (snd x)\<lparr>time := 0\<rparr>)) xs"

text \<open>
  A format-0 file: a tempo event, a note on channel 2, a system-exclusive message, a
  pitch-wheel message on channel 0, and the end of the track.
\<close>

definition example_type0_track :: "message list" where
  "example_type0_track =
     [\<lparr>time = 0, body = Meta ''set_tempo'' None [500000]\<rparr>,
      \<lparr>time = 0, body = NoteOn 2 60 100\<rparr>,
      \<lparr>time = 5, body = SystemMsg ''sysex'' [1, 2]\<rparr>,
      \<lparr>time = 5, body = ChannelOther ''pitchwheel'' 0 [100]\<rparr>,
      \<lparr>time = 5, body = NoteOff 2 60 0\<rparr>,
      \<lparr>time = 7, body = Meta ''end_of_track'' None []\<rparr>]"

definition example_type0_file :: midi_file where
  "example_type0_file = \<lparr>file_type = 0, ticks_per_beat = 480, file_tracks = [example_type0_track]\<rparr>"

section \<open>Properties of the event timeline\<close>

lemma to_relative_get_abs_times_from:
  "to_relative_from a (get_abs_times_from a t) = t"
  by (induction t arbitrary: a) simp_all

lemma fst_get_abs_times_from_ge:
  "\<forall>m \<in> set t. 0 \<le> time m \<Longrightarrow> \<forall>x \<in> set (get_abs_times_from a t). a \<le> fst x"
proof (induction t arbitrary: a)
  case Nil
  then show ?case by simp
next
  case (Cons m t)
  have "\<forall>x \<in> set (get_abs_times_from (a + time m) t). a + time m \<le> fst x"
    using Cons by simp
  with Cons.prems show ?case by fastforce
qed

lemma sorted_get_abs_times_from:
  "\<forall>m \<in> set t. 0 \<le> time m \<Longrightarrow> sorted (map fst (get_abs_times_from a t))"
proof (induction t arbitrary: a)
  case Nil
  then show ?case by simp
next
  case (Cons m t)
  have "\<forall>x \<in> set (get_abs_times_from (a + time m) t). a + time m \<le> fst x"
    using Cons.prems fst_get_abs_times_from_ge [of t "a + time m"] by simp
  with Cons show ?case by simp
qed

text \<open>
  C2.  For a track whose delta times are all non-negative, converting to absolute time
  and back to delta times gives the track back; this also holds with the stable sort by
  absolute time that \<^verbatim>\<open>merge_drum_tracks\<close> and the channel tracks of
  \<^verbatim>\<open>convert_type0_to_type1\<close> put between the two conversions.
\<close>

theorem round_trip:
  assumes "\<forall>m \<in> set t. 0 \<le> time m"
  shows "to_relative (get_abs_times t) = t
       \<and> to_relative (sort_by_abs_time (get_abs_times t)) = t"
proof -
  have "sorted (map fst (get_abs_times t))"
    using assms by (simp add: get_abs_times_def sorted_get_abs_times_from)
  then have "sort_by_abs_time (get_abs_times t) = get_abs_times t"
    by (simp add: sort_by_abs_time_def sort_key_id_if_sorted)
  then show ?thesis
    by (simp add: to_relative_def get_abs_times_def to_relative_get_abs_times_from)
qed

theorem round_trip_witness:
  "to_relative (get_abs_times
        [\<lparr>time = 3, body = NoteOn 9 38 100\<rparr>, \<lparr>time = 0, body = NoteOff 9 38 0\<rparr>])
     = [\<lparr>time = 3, body = NoteOn 9 38 100\<rparr>, \<lparr>time = 0, body = NoteOff 9 38 0\<rparr>]
   \<and> to_relative (sort_by_abs_time (get_abs_times
        [\<lparr>time = 3, body = NoteOn 9 38 100\<rparr>, \<lparr>time = 0, body = NoteOff 9 38 0\<rparr>]))
     = [\<lparr>time = 3, body = NoteOn 9 38 100\<rparr>, \<lparr>time = 0, body = NoteOff 9 38 0\<rparr>]"
  using round_trip [of "[\<lparr>time = 3, body = NoteOn 9 38 100\<rparr>, \<lparr>time = 0, body = NoteOff 9 38 0\<rparr>]"]
  by simp

text \<open>
  C5 as stated fails: the loop has no ordering check.  On a sequence whose second absolute
  time is smaller than the first it returns a track, with a negative delta time.
\<close>

theorem to_relative_unsorted_counterexample:
  "to_relative [(5, \<lparr>time = 0, body = NoteOn 9 38 100\<rparr>), (3, \<lparr>time = 0, body = NoteOff 9 38 0\<rparr>)]
   = [\<lparr>time = 5, body = NoteOn 9 38 100\<rparr>, \<lparr>time = - 2, body = NoteOff 9 38 0\<rparr>]"
  by (simp add: to_relative_def)

lemma to_relative_from_nth:
  "i < length xs \<Longrightarrow>
   to_relative_from a xs ! i =
     (snd (xs ! i))\<lparr>time := fst (xs ! i) - (if i = 0 then a else fst (xs ! (i - 1)))\<rparr>"
proof (induction xs arbitrary: a i)
  case Nil
  then show ?case by simp
next
  case (Cons x xs)
  obtain t m where x: "x = (t, m)" by (cases x)
  show ?case
  proof (cases i)
    case 0
    with x show ?thesis by simp
  next
    case (Suc j)
    with Cons.prems have "j < length xs" by simp
    from Cons.IH [OF this, of t] Suc x show ?thesis
      by (cases j) simp_all
  qed
qed

lemma length_to_relative_from: "length (to_relative_from a xs) = length xs"
  by (induction xs arbitrary: a) auto

text \<open>
  C5, amended.  The conversion back to delta times never fails: for every sequence,
  sorted or not, it returns a track of the same length whose message \<open>i\<close> is the
  input's message \<open>i\<close> with delta time \<open>abs_time[i] - abs_time[i-1]\<close> (\<open>abs_time[0] - 0\<close>
  for the first), which is negative where the absolute time decreases.
\<close>

theorem to_relative_total:
  "length (to_relative xs) = length xs
   \<and> (\<forall>i < length xs.
        to_relative xs ! i =
          (snd (xs ! i))\<lparr>time := fst (xs ! i) - (if i = 0 then 0 else fst (xs ! (i - 1)))\<rparr>)"
  by (simp add: to_relative_def length_to_relative_from to_relative_from_nth)

theorem to_relative_total_witness:
  "length (to_relative [(7, \<lparr>time = 0, body = NoteOn 9 36 64\<rparr>), (4, \<lparr>time = 0, body = NoteOn 9 40 64\<rparr>)]) = 2
   \<and> to_relative [(7, \<lparr>time = 0, body = NoteOn 9 36 64\<rparr>), (4, \<lparr>time = 0, body = NoteOn 9 40 64\<rparr>)] ! 1
       = \<lparr>time = - 3, body = NoteOn 9 40 64\<rparr>"
  using to_relative_total [of "[(7, \<lparr>time = 0, body = NoteOn 9 36 64\<rparr>), (4, \<lparr>time = 0, body = NoteOn 9 40 64\<rparr>)]"]
  by simp

section \<open>Properties of the drum merger\<close>

lemma note_times_None: "note_times xs d key = None \<longleftrightarrow> d key = None \<and> \<not> (\<exists>x \<in> set xs. onset_key (fst x) (snd x) = Some key)"
proof (induction xs d rule: note_times.induct)
  case (1 d)
  then show ?case by simp
next
  case (2 abs_time msg rest d)
  show ?case
  proof (cases "onset_key abs_time msg")
    case None
    with 2(1) show ?thesis by simp
  next
    case (Some k)
    have step: "note_times ((abs_time, msg) # rest) d key = note_times rest (d(k \<mapsto> True)) key"
      using Some by simp
    have IH: "(note_times rest (d(k \<mapsto> True)) key = None) =
      ((d(k \<mapsto> True)) key = None \<and> \<not> (\<exists>x \<in> set rest. onset_key (fst x) (snd x) = Some key))"
      using 2(2)[OF Some] .
    show ?thesis unfolding step IH using Some by (cases "key = k") simp_all
  qed
qed
lemma filter_track5_filter: "filter_track5 d xs = filter (\<lambda>x. case onset_key (fst x) (snd x) of Some key \<Rightarrow> d key = None | None \<Rightarrow> True) xs"
  by (induction d xs rule: filter_track5.induct) (auto split: option.splits)

lemma onset_key_Some: "onset_key t m = Some key \<longleftrightarrow> is_onset m \<and> key = (t, the (msg_note m))"
  by (auto simp: onset_key_def is_onset_def msg_note_def split: body.splits)

lemma onset_key_None: "onset_key t m = None \<longleftrightarrow> \<not> is_onset m"
  by (auto simp: onset_key_def is_onset_def split: body.splits)

lemma is_onset_note: "is_onset m \<Longrightarrow> \<exists>n. msg_note m = Some n"
  by (auto simp: is_onset_def msg_note_def split: body.splits)

lemma get_abs_times_to_relative_from:
  "get_abs_times_from a (to_relative_from a xs) = map (\<lambda>x. (fst x, (snd x)\<lparr>time := 0\<rparr>)) xs"
  by (induction xs arbitrary: a) auto

lemma get_abs_times_to_relative:
  "get_abs_times (to_relative xs) = map (\<lambda>x. (fst x, (snd x)\<lparr>time := 0\<rparr>)) xs"
  by (simp add: get_abs_times_def to_relative_def get_abs_times_to_relative_from)

lemma time_get_abs_times_from: "x \<in> set (get_abs_times_from a t) \<Longrightarrow> time (snd x) = 0"
  by (induction t arbitrary: a) auto

lemma time_zero_id: "time m = 0 \<Longrightarrow> m\<lparr>time := 0\<rparr> = m"
  by (cases m) simp

lemma events_at_append: "events_at k (xs @ ys) = events_at k xs @ events_at k ys"
  by (simp add: events_at_def)

lemma events_at_sort: "events_at k (sort_by_abs_time xs) = events_at k xs"
  by (simp add: events_at_def sort_by_abs_time_def sort_key_stable)

lemma events_at_filter:
  "events_at k (filter (\<lambda>x. Q (fst x) (snd x)) xs) = filter (Q k) (events_at k xs)"
  by (induction xs) (auto simp: events_at_def)

lemma set_filter_track5: "set (filter_track5 d xs) \<subseteq> set xs"
  by (auto simp: filter_track5_filter)

lemma keep_iff:
  "(case onset_key t m of Some key \<Rightarrow> note_times s Map.empty key = None | None \<Rightarrow> True)
   \<longleftrightarrow> \<not> (is_onset m \<and> (\<exists>m' \<in> set (events_at t s). is_onset m' \<and> msg_note m' = msg_note m))"
proof (cases "is_onset m")
  case False
  then have "onset_key t m = None" by (simp add: onset_key_None)
  with False show ?thesis by simp
next
  case True
  then obtain n where n: "msg_note m = Some n" using is_onset_note by blast
  with True have k: "onset_key t m = Some (t, n)" by (simp add: onset_key_Some)
  have "(\<exists>x \<in> set s. onset_key (fst x) (snd x) = Some (t, n))
      \<longleftrightarrow> (\<exists>m' \<in> set (events_at t s). is_onset m' \<and> msg_note m' = Some n)"
    using is_onset_note by (fastforce simp: events_at_def onset_key_Some)
  with True n k show ?thesis by (simp add: note_times_None)
qed

text \<open>
  C1.  At every absolute tick \<open>k\<close> the merged track holds, in this order, the messages
  of the primary track at \<open>k\<close> in their order, except the note-ons with positive
  velocity for which the secondary track has a note-on with positive velocity and the same
  note at \<open>k\<close>, and then all messages of the secondary track at \<open>k\<close> in their
  order.  So every secondary message (every onset among them) is in the output at its
  tick, a primary onset is left out exactly when the secondary track has the same note at
  the same tick, every other primary message is kept with its body, and a kept primary
  message comes before the secondary messages of its tick.
\<close>

theorem merge_drum_tracks_priority:
  "events_at k (get_abs_times (merge_drum_tracks p s)) =
     filter (\<lambda>m. \<not> (is_onset m \<and>
                 (\<exists>m' \<in> set (events_at k (get_abs_times s)). is_onset m' \<and> msg_note m' = msg_note m)))
       (events_at k (get_abs_times p))
     @ events_at k (get_abs_times s)"
proof -
  let ?P = "get_abs_times p" and ?S = "get_abs_times s"
  let ?F = "filter_track5 (note_times ?S Map.empty) ?P"
  let ?C = "sort_by_abs_time (?F @ ?S)"
  have "\<forall>x \<in> set ?C. time (snd x) = 0"
    using set_filter_track5 [of "note_times ?S Map.empty" ?P]
    by (auto simp: sort_by_abs_time_def get_abs_times_def dest: time_get_abs_times_from)
  then have "map (\<lambda>x. (fst x, (snd x)\<lparr>time := 0\<rparr>)) ?C = ?C"
    by (intro map_idI) (simp add: prod_eq_iff time_zero_id)
  then have abs: "get_abs_times (merge_drum_tracks p s) = ?C"
    by (simp add: merge_drum_tracks_def Let_def get_abs_times_to_relative)
  have "?F = filter (\<lambda>x. \<not> (is_onset (snd x) \<and>
           (\<exists>m' \<in> set (events_at (fst x) ?S). is_onset m' \<and> msg_note m' = msg_note (snd x)))) ?P"
    by (simp add: filter_track5_filter keep_iff)
  then have "events_at k ?F = filter (\<lambda>m. \<not> (is_onset m \<and>
                 (\<exists>m' \<in> set (events_at k ?S). is_onset m' \<and> msg_note m' = msg_note m)))
       (events_at k ?P)"
    using events_at_filter [of k "\<lambda>t m. \<not> (is_onset m \<and>
           (\<exists>m' \<in> set (events_at t ?S). is_onset m' \<and> msg_note m' = msg_note m))" ?P]
    by simp
  then show ?thesis
    by (simp add: abs events_at_sort events_at_append)
qed

theorem merge_drum_tracks_priority_witness:
  "events_at 480 (get_abs_times (merge_drum_tracks
      [\<lparr>time = 480, body = NoteOn 9 38 90\<rparr>, \<lparr>time = 0, body = NoteOn 9 42 100\<rparr>]
      [\<lparr>time = 480, body = NoteOn 9 38 100\<rparr>]))
   = [\<lparr>time = 0, body = NoteOn 9 42 100\<rparr>, \<lparr>time = 0, body = NoteOn 9 38 100\<rparr>]"
  using merge_drum_tracks_priority [of 480
      "[\<lparr>time = 480, body = NoteOn 9 38 90\<rparr>, \<lparr>time = 0, body = NoteOn 9 42 100\<rparr>]"
      "[\<lparr>time = 480, body = NoteOn 9 38 100\<rparr>]"]
  by (simp add: events_at_def get_abs_times_def is_onset_def msg_note_def)

section \<open>Properties of the track selector\<close>

lemma insort_ranked:
  "sorted_wrt ranked_before ys \<Longrightarrow> \<forall>y \<in> set ys. index x < index y \<Longrightarrow>
   sorted_wrt ranked_before (insort_key (\<lambda>t. - events t) x ys)"
proof (induction ys)
  case Nil
  then show ?case by simp
next
  case (Cons y ys)
  show ?case
  proof (cases "events y \<le> events x")
    case True
    have "\<forall>z \<in> set ys. events z \<le> events y"
      using Cons.prems(1) by (auto simp: ranked_before_def)
    with True Cons.prems show ?thesis
      by (auto simp: ranked_before_def)
  next
    case False
    with Cons show ?thesis
      by (auto simp: ranked_before_def set_insort_key)
  qed
qed

lemma sort_ranked:
  "sorted_wrt (<) (map index ts) \<Longrightarrow> sorted_wrt ranked_before (sort_by_events_desc ts)"
proof (induction ts)
  case Nil
  then show ?case by (simp add: sort_by_events_desc_def)
next
  case (Cons t ts)
  then have "sorted_wrt ranked_before (sort_by_events_desc ts)"
    and "\<forall>y \<in> set (sort_by_events_desc ts). index t < index y"
    by (auto simp: sort_by_events_desc_def)
  then show ?case
    using insort_ranked [of "sort_by_events_desc ts" t]
    by (simp add: sort_by_events_desc_def)
qed

lemma sorted_index_filter:
  "sorted_wrt (<) (map index ts) \<Longrightarrow> sorted_wrt (<) (map index (filter P ts))"
  by (induction ts) auto

lemma build_track_info_index: "sorted_wrt (<) (map index (build_track_info tracks))"
proof -
  have "map index (build_track_info tracks) = map (\<lambda>p. int (fst p)) (enumerate 0 tracks)"
    by (simp add: build_track_info_def split_def o_def)
  also have "\<dots> = map int (map fst (enumerate 0 tracks))"
    by (simp only: map_map o_def)
  also have "\<dots> = map int [0..<length tracks]"
    by simp
  finally show ?thesis
    by (simp add: sorted_wrt_map)
qed

text \<open>
  C6.  On a list in original order (indices ascending, as \<^verbatim>\<open>enumerate\<close> builds it) and
  a cap that is not negative, the selection is the first \<open>max_tracks\<close> entries of the
  ranking of exactly the entries with at least \<open>min_events\<close> events: more events first,
  equal events by ascending original index.  The ranking relation is a strict total order
  on entries with distinct indices, so this fixes the result; the selection is a function
  of the list and the two thresholds.
\<close>

theorem select_top_tracks_ranked:
  assumes "sorted_wrt (<) (map index track_info)" and "0 \<le> max_tracks"
  shows "\<exists>ranked.
           fst (select_top_tracks min_events max_tracks track_info) = take (nat max_tracks) ranked
         \<and> mset ranked = mset (filter (\<lambda>t. min_events \<le> events t) track_info)
         \<and> sorted_wrt ranked_before ranked"
proof -
  let ?sub = "filter (\<lambda>t. min_events \<le> events t) track_info"
  have "sorted_wrt ranked_before (sort_by_events_desc ?sub)"
    using assms(1) by (intro sort_ranked sorted_index_filter)
  moreover have "mset (sort_by_events_desc ?sub) = mset ?sub"
    by (simp add: sort_by_events_desc_def)
  moreover have "fst (select_top_tracks min_events max_tracks track_info)
      = take (nat max_tracks) (sort_by_events_desc ?sub)"
    using assms(2) by (simp add: select_top_tracks_def slice_to_def Let_def)
  ultimately show ?thesis by blast
qed
lemma select_top_tracks_example:
  "map index (fst (select_top_tracks 2 2 (build_track_info example_tracks))) = [4, 0]"
  by code_simp

theorem select_top_tracks_ranked_witness:
  "map index (fst (select_top_tracks 2 2 (build_track_info example_tracks))) = [4, 0]"
  using select_top_tracks_ranked [OF build_track_info_index,
      where max_tracks = 2 and min_events = 2 and tracks1 = example_tracks]
  by (simp add: select_top_tracks_example)

section \<open>Properties of the channel standardizer\<close>

lemma process_melodic_tracks_channel:
  "m \<in> set (process_melodic_tracks idx ts) \<Longrightarrow> channel m \<in> {0, 1, 2, 3}"
proof (induction ts arbitrary: idx)
  case Nil
  then show ?case by simp
next
  case (Cons t ts)
  have "melodic_channels ! (idx mod length melodic_channels) \<in> set melodic_channels"
    by (intro nth_mem) (simp add: melodic_channels_def)
  then have new: "melodic_channels ! (idx mod length melodic_channels) \<in> {0, 1, 2, 3}"
    by (simp add: melodic_channels_def)
  from Cons.prems Cons.IH [of "idx + 1"] new show ?case
    by (auto simp: Let_def melodic_channels_def split: if_splits)
qed

lemma process_melodic_tracks_index:
  "map index (process_melodic_tracks idx ts) = map index ts"
  by (induction ts arbitrary: idx) (simp_all add: Let_def)

lemma process_drum_track_id: "channel t = 9 \<Longrightarrow> process_drum_track t = t"
  by (simp add: process_drum_track_def)

text \<open>
  C4.  The result of \<^verbatim>\<open>standardize_channels\<close> is the percussion entries (those on
  channel 9, returned as they are) followed by the melodic entries (all others, the
  entries without a channel, 999, among them) in their order, and every melodic entry of
  the result has its channel in \<open>{0, 1, 2, 3}\<close>.
\<close>

theorem standardize_channels_invariant:
  "\<exists>percussion melodic.
      standardize_channels tracks = percussion @ melodic
    \<and> percussion = filter (\<lambda>t. channel t = 9) tracks
    \<and> map index melodic = map index (filter (\<lambda>t. channel t \<noteq> 9) tracks)
    \<and> (\<forall>t \<in> set percussion. channel t = 9)
    \<and> (\<forall>t \<in> set melodic. channel t \<in> {0, 1, 2, 3})"
proof -
  have "map process_drum_track (filter (\<lambda>t. channel t = 9) tracks)
      = filter (\<lambda>t. channel t = 9) tracks"
    by (rule map_idI) (simp add: process_drum_track_id)
  moreover have "\<forall>t \<in> set (process_melodic_tracks 0 (filter (\<lambda>t. channel t \<noteq> 9) tracks)).
      channel t \<in> {0, 1, 2, 3}"
    using process_melodic_tracks_channel by blast
  ultimately show ?thesis
    by (simp add: standardize_channels_def Let_def process_melodic_tracks_index)
qed

lemma standardize_channels_example:
  "map channel (standardize_channels (map with_channel (build_track_info example_tracks)))
   = [9, 0, 1, 1, 3, 0]"
  by code_simp

theorem standardize_channels_invariant_witness:
  "map channel (standardize_channels (map with_channel (build_track_info example_tracks)))
   = [9, 0, 1, 1, 3, 0]"
  using standardize_channels_invariant [of "map with_channel (build_track_info example_tracks)"]
  by (simp add: standardize_channels_example)

section \<open>Properties of the bass relocator\<close>

lemma count_bass_notes_remap:
  "count_bass_notes (remap_track c tr) acc = count_bass_notes tr acc"
proof (induction tr arbitrary: acc)
  case Nil
  then show ?case by (simp add: remap_track_def)
next
  case (Cons m tr)
  obtain b n where acc: "acc = (b, n)" by (cases acc)
  from Cons [unfolded remap_track_def] show ?case
    unfolding acc remap_track_def
    by (cases "(c, body m)" rule: set_body_channel.cases) (simp_all add: set_channel_def)
qed

lemma find_bass_track_cong:
  "list_all2 same_bass_profile ts ts' \<Longrightarrow> find_bass_track idx ts st = find_bass_track idx ts' st"
proof (induction ts ts' arbitrary: idx st rule: list_all2_induct)
  case Nil
  then show ?case by simp
next
  case (Cons t ts t' ts')
  obtain b m where st: "st = (b, m)" by (cases st)
  from Cons.hyps(1) Cons.IH show ?case
    unfolding st by (simp add: same_bass_profile_def skipped_def split: prod.splits)
qed

lemma find_bass_track_Some:
  "find_bass_track idx ts (b, m) = (Some i, m') \<Longrightarrow>
   b = Some i \<or> (idx \<le> i \<and> i < idx + length ts \<and> \<not> skipped (ts ! (i - idx)))"
proof (induction ts arbitrary: idx b m)
  case Nil
  then show ?case by simp
next
  case (Cons t ts)
  show ?case
  proof (cases "skipped t")
    case True
    with Cons.prems have "find_bass_track (idx + 1) ts (b, m) = (Some i, m')"
      by (simp add: skipped_def)
    from Cons.IH [OF this] show ?thesis by auto
  next
    case False
    obtain bc tn where cnt: "count_bass_notes (track t) (0, 0) = (bc, tn)"
      by (cases "count_bass_notes (track t) (0, 0)")
    show ?thesis
    proof (cases "0 < tn \<and> (1 / 2 :: real) < real_of_int bc / real_of_int tn \<and> m < bc")
      case True
      with Cons.prems False cnt have "find_bass_track (idx + 1) ts (Some idx, bc) = (Some i, m')"
        by (simp add: skipped_def)
      from Cons.IH [OF this] False show ?thesis by auto
    next
      case no: False
      with Cons.prems False cnt have "find_bass_track (idx + 1) ts (b, m) = (Some i, m')"
        by (auto simp add: skipped_def)
      from Cons.IH [OF this] show ?thesis by auto
    qed
  qed
qed

lemma find_channel_1_Some:
  "find_channel_1 idx ts b = Some j \<Longrightarrow>
   idx \<le> j \<and> j < idx + length ts \<and> j \<noteq> b \<and> channel (ts ! (j - idx)) = 1
   \<and> (\<forall>k. idx \<le> k \<and> k < j \<and> k \<noteq> b \<longrightarrow> channel (ts ! (k - idx)) \<noteq> 1)"
proof (induction ts arbitrary: idx)
  case Nil
  then show ?case by simp
next
  case (Cons t ts)
  show ?case
  proof (cases "channel t = 1 \<and> idx \<noteq> b")
    case True
    with Cons.prems show ?thesis by auto
  next
    case False
    with Cons.prems have "find_channel_1 (idx + 1) ts b = Some j" by auto
    from Cons.IH [OF this] False show ?thesis
      by (auto simp: nth_Cons' Suc_diff_le le_Suc_eq)
  qed
qed

lemma find_channel_1_None:
  "find_channel_1 idx ts b = None \<Longrightarrow> k < length ts \<Longrightarrow> idx + k \<noteq> b \<Longrightarrow> channel (ts ! k) \<noteq> 1"
proof (induction ts arbitrary: idx k)
  case Nil
  then show ?case by simp
next
  case (Cons t ts)
  then show ?case by (cases k) (auto split: if_splits)
qed

lemma find_channel_1_first:
  assumes "j < length ts" "j \<noteq> b" "channel (ts ! j) = 1"
    and "\<forall>k < j. k \<noteq> b \<longrightarrow> channel (ts ! k) \<noteq> 1"
  shows "find_channel_1 0 ts b = Some j"
proof (cases "find_channel_1 0 ts b")
  case None
  from find_channel_1_None [OF None assms(1)] assms(2,3) show ?thesis by simp
next
  case (Some j')
  from find_channel_1_Some [OF Some]
  have j': "j' < length ts" "j' \<noteq> b" "channel (ts ! j') = 1"
    and first: "\<forall>k. k < j' \<and> k \<noteq> b \<longrightarrow> channel (ts ! k) \<noteq> 1"
    by simp_all
  have "\<not> j < j'" using first assms(2,3) by blast
  moreover have "\<not> j' < j" using assms(4) j'(2,3) by blast
  ultimately show ?thesis using Some by simp
qed

lemma detect_bass_track_cases:
  "detect_bass_track ts =
     (case fst (find_bass_track 0 ts (None, 0)) of
        None \<Rightarrow> ts
      | Some i \<Rightarrow>
          if channel (ts ! i) = 1 then ts
          else (case find_channel_1 0 ts i of
                  None \<Rightarrow> ts[i := moved_bass (ts ! i)]
                | Some j \<Rightarrow> ts[i := moved_bass (ts ! i), j := swapped_out (channel (ts ! i)) (ts ! j)]))"
  by (simp add: detect_bass_track_def Let_def moved_bass_def swapped_out_def
      split: option.splits)

lemma same_bass_profile_refl: "list_all2 same_bass_profile ts ts"
  by (simp add: list_all2_refl same_bass_profile_def)

lemma same_bass_profile_update:
  "i < length ts \<Longrightarrow> same_bass_profile (ts ! i) t \<Longrightarrow> list_all2 same_bass_profile us ts
   \<Longrightarrow> list_all2 same_bass_profile us (ts[i := t])"
  by (auto simp: list_all2_conv_all_nth nth_list_update same_bass_profile_def)

lemma same_bass_profile_moved:
  "\<not> skipped t \<Longrightarrow> same_bass_profile t (moved_bass t)"
  by (simp add: same_bass_profile_def moved_bass_def skipped_def count_bass_notes_remap)

lemma same_bass_profile_swapped:
  "channel t = 1 \<Longrightarrow> c \<noteq> 9 \<Longrightarrow> c \<noteq> 999 \<Longrightarrow> same_bass_profile t (swapped_out c t)"
  by (simp add: same_bass_profile_def swapped_out_def skipped_def count_bass_notes_remap)

text \<open>
  C8.  \<^verbatim>\<open>detect_bass_track\<close> applied to its own result changes nothing: the result
  is the same list, with the same messages and the same annotations.  The search finds the
  same track again, since a move or swap changes neither the note counts nor which tracks
  are passed over, and that track is then on channel 1.
\<close>

theorem detect_bass_track_idempotent:
  "detect_bass_track (detect_bass_track tracks) = detect_bass_track tracks"
proof (cases "fst (find_bass_track 0 tracks (None, 0))")
  case None
  then show ?thesis by (simp add: detect_bass_track_cases)
next
  case (Some i)
  obtain m' where fb: "find_bass_track 0 tracks (None, 0) = (Some i, m')"
    using Some by (cases "find_bass_track 0 tracks (None, 0)") simp
  from find_bass_track_Some [OF fb]
  have i: "i < length tracks" and nskip: "\<not> skipped (tracks ! i)" by simp_all
  show ?thesis
  proof (cases "channel (tracks ! i) = 1")
    case True
    with Some show ?thesis by (simp add: detect_bass_track_cases)
  next
    case False
    let ?out = "detect_bass_track tracks"
    have prof: "list_all2 same_bass_profile tracks ?out" and at_i: "channel (?out ! i) = 1"
    proof -
      show "list_all2 same_bass_profile tracks ?out"
      proof (cases "find_channel_1 0 tracks i")
        case None
        with Some False have "?out = tracks[i := moved_bass (tracks ! i)]"
          by (simp add: detect_bass_track_cases)
        then show ?thesis
          using i nskip same_bass_profile_refl [of tracks]
          by (simp add: same_bass_profile_update same_bass_profile_moved)
      next
        case (Some j)
        from find_channel_1_Some [OF Some]
        have j: "j < length tracks" "j \<noteq> i" "channel (tracks ! j) = 1" by simp_all
        let ?mid = "tracks[i := moved_bass (tracks ! i)]"
        have mid: "list_all2 same_bass_profile tracks ?mid"
          using i nskip same_bass_profile_refl [of tracks]
          by (simp add: same_bass_profile_update same_bass_profile_moved)
        have sw: "same_bass_profile (?mid ! j) (swapped_out (channel (tracks ! i)) (tracks ! j))"
          using j nskip by (simp add: same_bass_profile_swapped skipped_def)
        have "j < length ?mid" using j(1) by simp
        from same_bass_profile_update [OF this sw mid]
        have "list_all2 same_bass_profile tracks
            (?mid[j := swapped_out (channel (tracks ! i)) (tracks ! j)])" .
        moreover have "?out = ?mid[j := swapped_out (channel (tracks ! i)) (tracks ! j)]"
          using Some \<open>fst (find_bass_track 0 tracks (None, 0)) = Some i\<close> False
          by (simp add: detect_bass_track_cases)
        ultimately show ?thesis by simp
      qed
      show "channel (?out ! i) = 1"
      proof (cases "find_channel_1 0 tracks i")
        case None
        with Some False i show ?thesis
          by (simp add: detect_bass_track_cases moved_bass_def)
      next
        case (Some j)
        from find_channel_1_Some [OF Some] have "j \<noteq> i" by simp
        with Some \<open>fst (find_bass_track 0 tracks (None, 0)) = Some i\<close> False i show ?thesis
          by (simp add: detect_bass_track_cases moved_bass_def)
      qed
    qed
    have "find_bass_track 0 ?out (None, 0) = find_bass_track 0 tracks (None, 0)"
      using find_bass_track_cong [OF prof] by simp
    with Some at_i show ?thesis
      by (simp add: detect_bass_track_cases [of ?out])
  qed
qed

text \<open>
  C10.  When the bass track \<open>i\<close> is not on channel 1 and \<open>j\<close> is the first index other
  than \<open>i\<close> whose entry is on channel 1, the bass track moves to channel 1, entry \<open>j\<close>
  takes the bass track's former channel, and every other entry is left as it is; so the
  other entries on channel 1 stay there and share the channel with the bass track.
\<close>

theorem detect_bass_track_swaps_first:
  assumes "fst (find_bass_track 0 tracks (None, 0)) = Some i"
    and "channel (tracks ! i) \<noteq> 1"
    and "j < length tracks" "j \<noteq> i" "channel (tracks ! j) = 1"
    and "\<forall>k < j. k \<noteq> i \<longrightarrow> channel (tracks ! k) \<noteq> 1"
  shows "length (detect_bass_track tracks) = length tracks
       \<and> detect_bass_track tracks ! i = moved_bass (tracks ! i)
       \<and> detect_bass_track tracks ! j = swapped_out (channel (tracks ! i)) (tracks ! j)
       \<and> (\<forall>k < length tracks. k \<noteq> i \<and> k \<noteq> j \<longrightarrow> detect_bass_track tracks ! k = tracks ! k)
       \<and> (\<forall>k < length tracks. k \<noteq> j \<and> channel (tracks ! k) = 1 \<longrightarrow>
            channel (detect_bass_track tracks ! k) = channel (detect_bass_track tracks ! i))"
proof -
  obtain m' where fb: "find_bass_track 0 tracks (None, 0) = (Some i, m')"
    using assms(1) by (cases "find_bass_track 0 tracks (None, 0)") simp
  from find_bass_track_Some [OF fb] have i: "i < length tracks" by simp
  have "find_channel_1 0 tracks i = Some j"
    using assms(3-6) by (rule find_channel_1_first)
  with assms(1,2) have out: "detect_bass_track tracks
      = tracks[i := moved_bass (tracks ! i), j := swapped_out (channel (tracks ! i)) (tracks ! j)]"
    by (simp add: detect_bass_track_cases)
  show ?thesis
    unfolding out using i assms(2-5) by (simp add: nth_list_update moved_bass_def)
qed

theorem detect_bass_track_swaps_first_witness:
  "channel (detect_bass_track example_bass_tracks ! 2) = 1
   \<and> channel (detect_bass_track example_bass_tracks ! 1) = 2
   \<and> channel (detect_bass_track example_bass_tracks ! 3) = 1
   \<and> detect_bass_track example_bass_tracks ! 3 = example_bass_tracks ! 3"
proof -
  have found: "fst (find_bass_track 0 example_bass_tracks (None, 0)) = Some 2"
    by code_simp
  have len: "length example_bass_tracks = 4"
    by code_simp
  have ch: "channel (example_bass_tracks ! 0) = 0" "channel (example_bass_tracks ! 1) = 1"
    "channel (example_bass_tracks ! 2) = 2" "channel (example_bass_tracks ! 3) = 1"
    by code_simp+
  have first: "\<forall>k < 1. k \<noteq> 2 \<longrightarrow> channel (example_bass_tracks ! k) \<noteq> 1"
    using ch(1) by simp
  have "channel (example_bass_tracks ! 2) \<noteq> 1" "1 < length example_bass_tracks" "(1::nat) \<noteq> 2"
    using ch len by simp_all
  from detect_bass_track_swaps_first [OF found this ch(2) first]
  have i: "detect_bass_track example_bass_tracks ! 2 = moved_bass (example_bass_tracks ! 2)"
    and j: "detect_bass_track example_bass_tracks ! 1
              = swapped_out (channel (example_bass_tracks ! 2)) (example_bass_tracks ! 1)"
    and rest: "\<forall>k < length example_bass_tracks. k \<noteq> 2 \<and> k \<noteq> 1 \<longrightarrow>
              detect_bass_track example_bass_tracks ! k = example_bass_tracks ! k"
    by simp_all
  from rest len have "detect_bass_track example_bass_tracks ! 3 = example_bass_tracks ! 3"
    by simp
  with i j ch show ?thesis
    by (simp add: moved_bass_def swapped_out_def)
qed

section \<open>Properties of the channel reassignment\<close>

text \<open>
  C3 as stated fails.  Two tracks that both start on channel 0 are both left on channel 0,
  and the first of them keeps its messages on channels 0 and 5: a kept track with two
  active channels, and two melodic tracks sharing a channel.
\<close>

theorem reassign_channels_counterexample:
  "map channel (reassign_channels shared_channel_tracks) = [0, 0]
   \<and> map active_channels (reassign_channels shared_channel_tracks) = [[0, 5], [0]]"
  by code_simp

lemma distinct_map_filter_nth:
  "distinct (map f (filter P xs)) \<longleftrightarrow>
   (\<forall>a < length xs. \<forall>b < length xs. a \<noteq> b \<and> P (xs ! a) \<and> P (xs ! b) \<longrightarrow> f (xs ! a) \<noteq> f (xs ! b))"
proof (induction xs)
  case Nil
  then show ?case by simp
next
  case (Cons x xs)
  let ?R = "\<lambda>ys. \<forall>a < length ys. \<forall>b < length ys. a \<noteq> b \<and> P (ys ! a) \<and> P (ys ! b) \<longrightarrow> f (ys ! a) \<noteq> f (ys ! b)"
  have step: "?R (x # xs) \<longleftrightarrow> ?R xs \<and> (P x \<longrightarrow> (\<forall>b < length xs. P (xs ! b) \<longrightarrow> f x \<noteq> f (xs ! b)))"
  proof
    assume R: "?R (x # xs)"
    have "?R xs"
    proof (intro allI impI)
      fix a b assume "a < length xs" "b < length xs" "a \<noteq> b \<and> P (xs ! a) \<and> P (xs ! b)"
      with R [rule_format, of "Suc a" "Suc b"] show "f (xs ! a) \<noteq> f (xs ! b)" by simp
    qed
    moreover have "P x \<longrightarrow> (\<forall>b < length xs. P (xs ! b) \<longrightarrow> f x \<noteq> f (xs ! b))"
    proof (intro allI impI)
      fix b assume "P x" "b < length xs" "P (xs ! b)"
      with R [rule_format, of 0 "Suc b"] show "f x \<noteq> f (xs ! b)" by simp
    qed
    ultimately show "?R xs \<and> (P x \<longrightarrow> (\<forall>b < length xs. P (xs ! b) \<longrightarrow> f x \<noteq> f (xs ! b)))" ..
  next
    assume h: "?R xs \<and> (P x \<longrightarrow> (\<forall>b < length xs. P (xs ! b) \<longrightarrow> f x \<noteq> f (xs ! b)))"
    show "?R (x # xs)"
    proof (intro allI impI)
      fix a b assume ab: "a < length (x # xs)" "b < length (x # xs)"
        "a \<noteq> b \<and> P ((x # xs) ! a) \<and> P ((x # xs) ! b)"
      show "f ((x # xs) ! a) \<noteq> f ((x # xs) ! b)"
      proof (cases a)
        case 0
        with ab obtain b' where "b = Suc b'" by (cases b) auto
        with 0 ab h show ?thesis by auto
      next
        case (Suc a')
        show ?thesis
        proof (cases b)
          case 0
          with Suc ab h have "f x \<noteq> f (xs ! a')" by auto
          with 0 Suc show ?thesis by auto
        next
          case (Suc b')
          with \<open>a = Suc a'\<close> ab h show ?thesis by auto
        qed
      qed
    qed
  qed
  have "(P x \<longrightarrow> f x \<notin> f ` set (filter P xs)) \<longleftrightarrow>
        (P x \<longrightarrow> (\<forall>b < length xs. P (xs ! b) \<longrightarrow> f x \<noteq> f (xs ! b)))"
    by (auto simp: in_set_conv_nth image_iff) 
  with Cons.IH step show ?case by auto
qed

lemma melodic_distinct_nth:
  "melodic_distinct ts \<longleftrightarrow>
     (\<forall>a < length ts. \<forall>b < length ts.
        a \<noteq> b \<and> channel (ts ! a) \<noteq> 9 \<and> channel (ts ! b) \<noteq> 9
          \<longrightarrow> channel (ts ! a) \<noteq> channel (ts ! b))"
  unfolding melodic_distinct_def by (rule distinct_map_filter_nth)

lemma msg_channel_set_channel:
  "msg_channel (set_channel c m) = map_option (\<lambda>_. c) (msg_channel m)"
  by (cases "(c, body m)" rule: set_body_channel.cases) (simp_all add: msg_channel_def set_channel_def)

lemma on_own_channel_remap:
  "channel t = c \<Longrightarrow> track t = remap_track c tr \<Longrightarrow> on_own_channel t"
  by (auto simp: on_own_channel_def remap_track_def msg_channel_set_channel list_all_iff
      split: option.splits)

lemma on_own_channel_process_melodic_tracks:
  "\<forall>t \<in> set ts. on_own_channel t \<Longrightarrow> \<forall>t \<in> set (process_melodic_tracks idx ts). on_own_channel t"
proof (induction ts arbitrary: idx)
  case Nil
  then show ?case by simp
next
  case (Cons t ts)
  then show ?case
    by (simp add: Let_def on_own_channel_remap)
qed

lemma on_own_channel_standardize_channels:
  assumes "\<forall>t \<in> set ts. on_own_channel t"
  shows "\<forall>t \<in> set (standardize_channels ts). on_own_channel t"
proof -
  have "map process_drum_track (filter (\<lambda>t. channel t = 9) ts) = filter (\<lambda>t. channel t = 9) ts"
    by (rule map_idI) (simp add: process_drum_track_id)
  moreover have "\<forall>t \<in> set (process_melodic_tracks 0 (filter (\<lambda>t. channel t \<noteq> 9) ts)). on_own_channel t"
    using assms by (intro on_own_channel_process_melodic_tracks) simp
  ultimately show ?thesis
    using assms by (auto simp: standardize_channels_def Let_def)
qed

lemma on_own_channel_moved_bass: "on_own_channel (moved_bass t)"
  by (rule on_own_channel_remap [of _ 1 "track t"]) (simp_all add: moved_bass_def)

lemma on_own_channel_swapped_out: "on_own_channel (swapped_out c t)"
  by (rule on_own_channel_remap [of _ c "track t"]) (simp_all add: swapped_out_def)

lemma on_own_channel_update:
  "\<forall>t \<in> set xs. on_own_channel t \<Longrightarrow> on_own_channel x \<Longrightarrow> \<forall>t \<in> set (xs[i := x]). on_own_channel t"
  using set_update_subset_insert [of xs i x] by auto

lemma on_own_channel_detect_bass_track:
  assumes "\<forall>t \<in> set ts. on_own_channel t"
  shows "\<forall>t \<in> set (detect_bass_track ts). on_own_channel t"
proof (cases "fst (find_bass_track 0 ts (None, 0))")
  case None
  with assms show ?thesis by (simp add: detect_bass_track_cases)
next
  case (Some i)
  have mid: "\<forall>t \<in> set (ts[i := moved_bass (ts ! i)]). on_own_channel t"
    using assms on_own_channel_moved_bass by (rule on_own_channel_update)
  show ?thesis
  proof (cases "find_channel_1 0 ts i")
    case None
    with Some assms mid show ?thesis by (simp add: detect_bass_track_cases)
  next
    case (Some j)
    have "\<forall>t \<in> set (ts[i := moved_bass (ts ! i), j := swapped_out (channel (ts ! i)) (ts ! j)]).
        on_own_channel t"
      using mid on_own_channel_swapped_out by (rule on_own_channel_update)
    with Some \<open>fst (find_bass_track 0 ts (None, 0)) = Some i\<close> assms show ?thesis
      by (simp add: detect_bass_track_cases)
  qed
qed

lemma melodic_channels_nth: "k < 4 \<Longrightarrow> melodic_channels ! k = int k"
proof -
  assume "k < 4"
  then consider "k = 0" | "k = 1" | "k = 2" | "k = 3" by linarith
  then show ?thesis by cases (simp_all add: melodic_channels_def)
qed

lemma process_melodic_tracks_all_remapped:
  "list_all (\<lambda>t. channel t \<notin> set melodic_channels) ts \<Longrightarrow>
   map channel (process_melodic_tracks idx ts) = map (\<lambda>k. int (k mod 4)) [idx..<idx + length ts]"
proof (induction ts arbitrary: idx)
  case Nil
  then show ?case by simp
next
  case (Cons t ts)
  have "melodic_channels ! (idx mod length melodic_channels) = int (idx mod 4)"
    using melodic_channels_nth [of "idx mod 4"] by (simp add: melodic_channels_def)
  moreover have "map channel (process_melodic_tracks (idx + 1) ts)
      = map (\<lambda>k. int (k mod 4)) [idx + 1..<idx + 1 + length ts]"
    using Cons by simp
  moreover have "[idx..<idx + length (t # ts)] = idx # [idx + 1..<idx + 1 + length ts]"
    using upt_conv_Cons [of idx "idx + length (t # ts)"] by (simp del: upt_Suc)
  ultimately show ?case
    using Cons.prems by (simp add: Let_def del: upt_Suc)
qed

lemma process_melodic_tracks_all_valid:
  "list_all (\<lambda>t. channel t \<in> set melodic_channels) ts \<Longrightarrow> process_melodic_tracks idx ts = ts"
  by (induction ts arbitrary: idx) (auto simp: Let_def melodic_channels_def)

lemma distinct_first_channels: "n \<le> 4 \<Longrightarrow> distinct (map (\<lambda>k. int (k mod 4)) [0..<n])"
  by (auto simp: distinct_map inj_on_def)

lemma melodic_distinct_append:
  assumes "\<forall>d \<in> set ds. channel d = 9" and "distinct (map channel ms)"
  shows "melodic_distinct (ds @ ms)"
proof -
  have "filter (\<lambda>t. channel t \<noteq> 9) ds = []"
    using assms(1) by (simp add: filter_empty_conv)
  then show ?thesis
    using assms(2) by (simp add: melodic_distinct_def distinct_map_filter)
qed

lemma melodic_distinct_standardize_channels:
  assumes "melodic_already_distinct ts \<or> melodic_all_remapped ts"
  shows "melodic_distinct (standardize_channels ts)"
proof -
  let ?D = "filter (\<lambda>t. channel t = 9) ts" and ?M = "filter (\<lambda>t. channel t \<noteq> 9) ts"
  have D: "map process_drum_track ?D = ?D"
    by (rule map_idI) (simp add: process_drum_track_id)
  have "distinct (map channel (process_melodic_tracks 0 ?M))"
    using assms
  proof
    assume "melodic_already_distinct ts"
    then show ?thesis
      by (simp add: melodic_already_distinct_def process_melodic_tracks_all_valid)
  next
    assume "melodic_all_remapped ts"
    then show ?thesis
      using process_melodic_tracks_all_remapped [of ?M 0] distinct_first_channels [of "length ?M"]
      by (simp add: melodic_all_remapped_def)
  qed
  then have "melodic_distinct (?D @ process_melodic_tracks 0 ?M)"
    by (intro melodic_distinct_append) simp_all
  then show ?thesis
    by (simp add: standardize_channels_def Let_def D)
qed

lemma melodic_distinct_detect_bass_track:
  assumes "melodic_distinct ts"
  shows "melodic_distinct (detect_bass_track ts)"
proof (cases "fst (find_bass_track 0 ts (None, 0))")
  case None
  with assms show ?thesis by (simp add: detect_bass_track_cases)
next
  case (Some i)
  obtain m' where fb: "find_bass_track 0 ts (None, 0) = (Some i, m')"
    using Some by (cases "find_bass_track 0 ts (None, 0)") simp
  from find_bass_track_Some [OF fb]
  have i: "i < length ts" and nskip: "channel (ts ! i) \<noteq> 9" by (simp_all add: skipped_def)
  show ?thesis
  proof (cases "channel (ts ! i) = 1")
    case True
    with Some assms show ?thesis by (simp add: detect_bass_track_cases)
  next
    case False
    show ?thesis
    proof (cases "find_channel_1 0 ts i")
      case None
      have free: "\<And>k. k < length ts \<Longrightarrow> k \<noteq> i \<Longrightarrow> channel (ts ! k) \<noteq> 1"
        using find_channel_1_None [OF None] by simp
      have "melodic_distinct (ts[i := moved_bass (ts ! i)])"
        unfolding melodic_distinct_nth
        using assms [unfolded melodic_distinct_nth] free i
        by (auto simp: nth_list_update moved_bass_def)
      with Some None False show ?thesis by (simp add: detect_bass_track_cases)
    next
      case (Some j)
      from find_channel_1_Some [OF Some]
      have j: "j < length ts" "j \<noteq> i" "channel (ts ! j) = 1" by simp_all
      let ?out = "ts[i := moved_bass (ts ! i), j := swapped_out (channel (ts ! i)) (ts ! j)]"
      define p where "p k = (if k = i then j else if k = j then i else k)" for k
      have key: "channel (?out ! k) = channel (ts ! p k)" if "k < length ts" for k
        using that i j by (simp add: p_def nth_list_update moved_bass_def swapped_out_def)
      have p: "p k < length ts" if "k < length ts" for k
        using that i j by (simp add: p_def)
      have inj: "p a \<noteq> p b" if "a \<noteq> b" for a b
        using that by (auto simp: p_def)
      have "melodic_distinct ?out"
        unfolding melodic_distinct_nth
      proof (intro allI impI)
        fix a b
        assume a: "a < length ?out" and b: "b < length ?out"
          and h: "a \<noteq> b \<and> channel (?out ! a) \<noteq> 9 \<and> channel (?out ! b) \<noteq> 9"
        from a b have a': "a < length ts" and b': "b < length ts" by simp_all
        have "channel (ts ! p a) \<noteq> channel (ts ! p b)"
          using assms [unfolded melodic_distinct_nth, rule_format, of "p a" "p b"]
            p [OF a'] p [OF b'] inj [of a b] h key [OF a'] key [OF b'] by simp
        then show "channel (?out ! a) \<noteq> channel (?out ! b)"
          using key [OF a'] key [OF b'] by simp
      qed
      with Some \<open>fst (find_bass_track 0 ts (None, 0)) = Some i\<close> False show ?thesis
        by (simp add: detect_bass_track_cases)
    qed
  qed
qed

text \<open>
  C3, amended.  After \<^verbatim>\<open>standardize_channels\<close> followed by \<^verbatim>\<open>detect_bass_track\<close>:
  if every kept track had all its messages with a channel on its primary channel, then
  every kept track has them all on the channel of its entry; and if the melodic entries
  were on pairwise different channels among 0, 1, 2, 3, or were at most four with none on
  one of these channels, then no two melodic entries share a channel.
\<close>

theorem reassign_channels_invariant:
  "((\<forall>t \<in> set tracks. on_own_channel t) \<longrightarrow> (\<forall>t \<in> set (reassign_channels tracks). on_own_channel t))
   \<and> (melodic_already_distinct tracks \<or> melodic_all_remapped tracks
        \<longrightarrow> melodic_distinct (reassign_channels tracks))"
proof (intro conjI impI)
  assume "\<forall>t \<in> set tracks. on_own_channel t"
  then have "\<forall>t \<in> set (standardize_channels tracks). on_own_channel t"
    by (rule on_own_channel_standardize_channels)
  then show "\<forall>t \<in> set (reassign_channels tracks). on_own_channel t"
    unfolding reassign_channels_def by (rule on_own_channel_detect_bass_track)
next
  assume "melodic_already_distinct tracks \<or> melodic_all_remapped tracks"
  then have "melodic_distinct (standardize_channels tracks)"
    by (rule melodic_distinct_standardize_channels)
  then show "melodic_distinct (reassign_channels tracks)"
    unfolding reassign_channels_def by (rule melodic_distinct_detect_bass_track)
qed

theorem reassign_channels_invariant_witness:
  "list_all on_own_channel (reassign_channels bass_first_tracks)
   \<and> melodic_distinct (reassign_channels bass_first_tracks)
   \<and> map channel (reassign_channels bass_first_tracks) = [9, 1, 0]"
proof -
  have own: "\<forall>t \<in> set bass_first_tracks. on_own_channel t"
    by code_simp
  have fit: "melodic_already_distinct bass_first_tracks \<or> melodic_all_remapped bass_first_tracks"
    by code_simp
  have "map channel (reassign_channels bass_first_tracks) = [9, 1, 0]"
    by code_simp
  with reassign_channels_invariant [of bass_first_tracks] own fit show ?thesis
    by (simp add: list_all_iff)
qed

section \<open>Properties of the channel splitter\<close>

lemma to_relative_from_zero_times: "to_relative_from a (zero_times xs) = to_relative_from a xs"
  by (induction xs arbitrary: a) (auto simp: zero_times_def)

lemma is_meta_time [simp]: "is_meta (m\<lparr>time := t\<rparr>) = is_meta m"
  by (simp add: is_meta_def)

lemma msg_channel_time [simp]: "msg_channel (m\<lparr>time := t\<rparr>) = msg_channel m"
  by (simp add: msg_channel_def)

lemma split_messages_result:
  assumes "length cm = 16" and "valid_channels msgs"
  shows "\<exists>cm' mm'. split_messages t0 msgs (cm, mm) = Inr (cm', mm')
           \<and> length cm' = 16
           \<and> (\<forall>c < 16. cm' ! c = cm ! c
                 @ filter (\<lambda>x. \<not> is_meta (snd x) \<and> msg_channel (snd x) = Some (int c))
                     (get_abs_times_from t0 msgs))
           \<and> zero_times mm' = zero_times mm
                 @ filter (\<lambda>x. is_meta (snd x)) (get_abs_times_from t0 msgs)"
  using assms
proof (induction msgs arbitrary: t0 cm mm)
  case Nil
  then show ?case by simp
next
  case (Cons msg rest)
  from Cons.prems(2) have rest: "valid_channels rest"
    by (simp add: valid_channels_def)
  show ?case
  proof (cases "is_meta msg")
    case True
    from Cons.IH [OF Cons.prems(1) rest, of "t0 + time msg" "mm @ [(t0 + time msg, msg)]"]
    show ?thesis using True by (auto simp: zero_times_def)
  next
    case False
    show ?thesis
    proof (cases "msg_channel msg")
      case None
      from Cons.IH [OF Cons.prems(1) rest, of "t0 + time msg" mm]
      show ?thesis using False None by auto
    next
      case (Some c)
      with Cons.prems(2) False have c: "0 \<le> c" "c < 16"
        by (simp_all add: valid_channels_def)
      then have idx: "list_index (length cm) c = Inr (nat c)"
        using Cons.prems(1) by (simp add: list_index_def)
      let ?cm = "cm[nat c := cm ! nat c @ [(t0 + time msg, msg\<lparr>time := 0\<rparr>)]]"
      have len: "length ?cm = 16" using Cons.prems(1) by simp
      from Cons.IH [OF len rest, of "t0 + time msg" mm]
      obtain cm' mm' where r: "split_messages (t0 + time msg) rest (?cm, mm) = Inr (cm', mm')"
        "length cm' = 16"
        "\<forall>k < 16. cm' ! k = ?cm ! k
                 @ filter (\<lambda>x. \<not> is_meta (snd x) \<and> msg_channel (snd x) = Some (int k))
                     (get_abs_times_from (t0 + time msg) rest)"
        "zero_times mm' = zero_times mm
                 @ filter (\<lambda>x. is_meta (snd x)) (get_abs_times_from (t0 + time msg) rest)"
        by blast
      have "split_messages t0 (msg # rest) (cm, mm) = Inr (cm', mm')"
        using False Some idx r(1) by simp
      moreover have "\<forall>k < 16. cm' ! k = cm ! k
                 @ filter (\<lambda>x. \<not> is_meta (snd x) \<and> msg_channel (snd x) = Some (int k))
                     (get_abs_times_from t0 (msg # rest))"
      proof (intro allI impI)
        fix k :: nat assume k: "k < 16"
        show "cm' ! k = cm ! k
                 @ filter (\<lambda>x. \<not> is_meta (snd x) \<and> msg_channel (snd x) = Some (int k))
                     (get_abs_times_from t0 (msg # rest))"
        proof (cases "k = nat c")
          case True
          with c have "int k = c" by simp
          with r(3) [rule_format, OF k] True False Some Cons.prems(1) k show ?thesis by simp
        next
          case ne: False
          with c have "int k \<noteq> c" by auto
          with r(3) [rule_format, OF k] ne False Some show ?thesis by simp
        qed
      qed
      moreover have "zero_times mm' = zero_times mm
                 @ filter (\<lambda>x. is_meta (snd x)) (get_abs_times_from t0 (msg # rest))"
        using r(4) False by simp
      ultimately show ?thesis using r(2) by blast
    qed
  qed
qed

lemma zero_times_Nil: "zero_times xs = [] \<longleftrightarrow> xs = []"
  by (simp add: zero_times_def)

lemma convert_type0_to_type1_result:
  assumes "file_tracks mid = original_track # others" and "valid_channels original_track"
  shows "convert_type0_to_type1 mid =
     Inr \<lparr>file_type = 1, ticks_per_beat = ticks_per_beat mid,
          file_tracks =
            (if meta_events original_track \<noteq> [] then [to_relative (meta_events original_track)] else [])
            @ map (\<lambda>c. to_relative (sort_by_abs_time (channel_events (int c) original_track))
                        @ [end_of_track])
                (filter (\<lambda>c. channel_events (int c) original_track \<noteq> []) [0..<16])\<rparr>"
proof -
  have len: "length (replicate 16 ([] :: (int \<times> message) list)) = 16" by simp
  from split_messages_result [OF len assms(2), of 0 "[]"]
  obtain cm' mm' where r: "split_messages 0 original_track (replicate 16 [], []) = Inr (cm', mm')"
    and cm: "\<forall>c < 16. cm' ! c = replicate 16 [] ! c @ channel_events (int c) original_track"
    and mm: "zero_times mm' = zero_times [] @ meta_events original_track"
    unfolding channel_events_def meta_events_def get_abs_times_def by blast
  have cm': "cm' ! c = channel_events (int c) original_track" if "c < 16" for c
    using cm that by simp
  have mm': "zero_times mm' = meta_events original_track"
    using mm by (simp add: zero_times_def)
  have meta: "(if mm' \<noteq> [] then [to_relative mm'] else [])
      = (if meta_events original_track \<noteq> [] then [to_relative (meta_events original_track)] else [])"
    using mm' zero_times_Nil [of mm'] to_relative_from_zero_times [of 0 mm']
    by (auto simp: to_relative_def)
  have chans: "map (\<lambda>ch. channel_track (cm' ! ch)) (filter (\<lambda>ch. cm' ! ch \<noteq> []) [0..<16])
      = map (\<lambda>c. to_relative (sort_by_abs_time (channel_events (int c) original_track)) @ [end_of_track])
          (filter (\<lambda>c. channel_events (int c) original_track \<noteq> []) [0..<16])"
  proof -
    have "filter (\<lambda>ch. cm' ! ch \<noteq> []) [0..<16]
        = filter (\<lambda>c. channel_events (int c) original_track \<noteq> []) [0..<16]"
      by (rule filter_cong) (simp_all add: cm')
    moreover have "map (\<lambda>ch. channel_track (cm' ! ch))
          (filter (\<lambda>c. channel_events (int c) original_track \<noteq> []) [0..<16])
        = map (\<lambda>c. to_relative (sort_by_abs_time (channel_events (int c) original_track)) @ [end_of_track])
          (filter (\<lambda>c. channel_events (int c) original_track \<noteq> []) [0..<16])"
      by (rule map_cong [OF refl]) (simp add: cm' channel_track_def)
    ultimately show ?thesis by simp
  qed
  show ?thesis
    unfolding convert_type0_to_type1_def assms(1) using r meta chans by simp
qed

lemma get_abs_times_from_append:
  "set (get_abs_times_from a xs) \<subseteq> set (get_abs_times_from a (xs @ ys))"
  by (induction xs arbitrary: a) auto

lemma get_abs_times_from_source:
  "x \<in> set (get_abs_times_from a t) \<Longrightarrow> \<exists>m \<in> set t. snd x = m\<lparr>time := 0\<rparr>"
  by (induction t arbitrary: a) auto

lemma to_relative_from_source:
  "m \<in> set (to_relative_from a xs) \<Longrightarrow> \<exists>x \<in> set xs. \<exists>t. m = (snd x)\<lparr>time := t\<rparr>"
  by (induction xs arbitrary: a) force+

lemma get_abs_times_channel_track:
  "set (channel_events c tr) \<subseteq>
   set (get_abs_times (to_relative (sort_by_abs_time (channel_events c tr)) @ [end_of_track]))"
proof -
  let ?ce = "sort_by_abs_time (channel_events c tr)"
  have "\<forall>x \<in> set (channel_events c tr). time (snd x) = 0"
    by (auto simp: channel_events_def get_abs_times_def dest: time_get_abs_times_from)
  then have "\<forall>x \<in> set (channel_events c tr). (fst x, (snd x)\<lparr>time := 0\<rparr>) = x"
    by (simp add: prod_eq_iff time_zero_id)
  then have "zero_times ?ce = ?ce"
    unfolding zero_times_def by (intro map_idI) (simp add: sort_by_abs_time_def)
  then have "get_abs_times (to_relative ?ce) = ?ce"
    by (simp add: get_abs_times_to_relative zero_times_def)
  then have "set (channel_events c tr) \<subseteq> set (get_abs_times_from 0 (to_relative ?ce))"
    by (simp add: get_abs_times_def sort_by_abs_time_def)
  then show ?thesis
    unfolding get_abs_times_def using get_abs_times_from_append by blast
qed

text \<open>
  C7.  On a file whose first track is \<open>original_track\<close> (the only track of a format-0
  file), \<^verbatim>\<open>convert_type0_to_type1\<close> returns a file of type 1 with the same ticks per
  beat whose tracks are: the track of the meta messages, if there are any, and then, for
  each channel from 0 to 15 in ascending order that has a message, the track of its
  messages followed by an end-of-track message with delta time 0.
\<close>

theorem convert_type0_to_type1_tracks:
  assumes "file_tracks mid = original_track # others" and "valid_channels original_track"
  shows "convert_type0_to_type1 mid =
     Inr \<lparr>file_type = 1, ticks_per_beat = ticks_per_beat mid,
          file_tracks =
            (if meta_events original_track \<noteq> [] then [to_relative (meta_events original_track)] else [])
            @ map (\<lambda>c. to_relative (sort_by_abs_time (channel_events (int c) original_track))
                        @ [end_of_track])
                (filter (\<lambda>c. channel_events (int c) original_track \<noteq> []) [0..<16])\<rparr>"
  using assms by (rule convert_type0_to_type1_result)

theorem convert_type0_to_type1_tracks_witness:
  "convert_type0_to_type1 example_type0_file =
     Inr \<lparr>file_type = 1, ticks_per_beat = 480,
          file_tracks =
            [[\<lparr>time = 0, body = Meta ''set_tempo'' None [500000]\<rparr>,
              \<lparr>time = 22, body = Meta ''end_of_track'' None []\<rparr>],
             [\<lparr>time = 10, body = ChannelOther ''pitchwheel'' 0 [100]\<rparr>,
              \<lparr>time = 0, body = Meta ''end_of_track'' None []\<rparr>],
             [\<lparr>time = 0, body = NoteOn 2 60 100\<rparr>,
              \<lparr>time = 15, body = NoteOff 2 60 0\<rparr>,
              \<lparr>time = 0, body = Meta ''end_of_track'' None []\<rparr>]]\<rparr>"
proof -
  have tracks: "file_tracks example_type0_file = example_type0_track # []"
    by (simp add: example_type0_file_def)
  have valid: "valid_channels example_type0_track"
    by code_simp
  have tpb: "ticks_per_beat example_type0_file = 480"
    by (simp add: example_type0_file_def)
  have metas: "meta_events example_type0_track =
      [(0, \<lparr>time = 0, body = Meta ''set_tempo'' None [500000]\<rparr>),
       (22, \<lparr>time = 0, body = Meta ''end_of_track'' None []\<rparr>)]"
    by code_simp
  have chans: "map (\<lambda>c. to_relative (sort_by_abs_time (channel_events (int c) example_type0_track))
                        @ [end_of_track])
                (filter (\<lambda>c. channel_events (int c) example_type0_track \<noteq> []) [0..<16])
     = [[\<lparr>time = 10, body = ChannelOther ''pitchwheel'' 0 [100]\<rparr>,
              \<lparr>time = 0, body = Meta ''end_of_track'' None []\<rparr>],
             [\<lparr>time = 0, body = NoteOn 2 60 100\<rparr>,
              \<lparr>time = 15, body = NoteOff 2 60 0\<rparr>,
              \<lparr>time = 0, body = Meta ''end_of_track'' None []\<rparr>]]"
    by code_simp
  show ?thesis
    unfolding convert_type0_to_type1_tracks [OF tracks valid] tpb metas chans
    by (simp add: to_relative_def)
qed

text \<open>
  C9 as stated fails: a system-exclusive message, which is not meta and has no channel,
  is in no track of the result.
\<close>

theorem convert_type0_to_type1_sysex_counterexample:
  "convert_type0_to_type1
     \<lparr>file_type = 0, ticks_per_beat = 480,
      file_tracks = [[\<lparr>time = 0, body = NoteOn 0 60 100\<rparr>,
                      \<lparr>time = 5, body = SystemMsg ''sysex'' [1, 2]\<rparr>]]\<rparr>
   = Inr \<lparr>file_type = 1, ticks_per_beat = 480,
          file_tracks = [[\<lparr>time = 0, body = NoteOn 0 60 100\<rparr>,
                          \<lparr>time = 0, body = Meta ''end_of_track'' None []\<rparr>]]\<rparr>"
  by code_simp

text \<open>
  C9, amended.  Every message of the first track that is not meta and has a channel, of
  whatever kind, is in a track of the result at the same absolute tick with the same body
  (only its delta time is recomputed); and every message of the result is a meta message
  or has a channel, so the messages that are not meta and have no channel are not in the
  result.
\<close>

theorem convert_type0_to_type1_channel_messages:
  assumes "file_tracks mid = original_track # others" and "valid_channels original_track"
  shows "\<exists>out. convert_type0_to_type1 mid = Inr out
     \<and> (\<forall>x \<in> set (get_abs_times original_track).
           \<not> is_meta (snd x) \<and> msg_channel (snd x) \<noteq> None
           \<longrightarrow> (\<exists>tr \<in> set (file_tracks out). x \<in> set (get_abs_times tr)))
     \<and> (\<forall>tr \<in> set (file_tracks out). \<forall>m \<in> set tr. is_meta m \<or> msg_channel m \<noteq> None)"
proof -
  let ?metas = "if meta_events original_track \<noteq> [] then [to_relative (meta_events original_track)] else []"
  let ?chan = "\<lambda>c. to_relative (sort_by_abs_time (channel_events (int c) original_track)) @ [end_of_track]"
  let ?chans = "map ?chan (filter (\<lambda>c. channel_events (int c) original_track \<noteq> []) [0..<16])"
  let ?out = "\<lparr>file_type = 1, ticks_per_beat = ticks_per_beat mid, file_tracks = ?metas @ ?chans\<rparr>"
  have res: "convert_type0_to_type1 mid = Inr ?out"
    using assms by (rule convert_type0_to_type1_result)
  have kept: "\<exists>tr \<in> set (file_tracks ?out). x \<in> set (get_abs_times tr)"
    if x: "x \<in> set (get_abs_times original_track)" and nm: "\<not> is_meta (snd x)"
      and ch: "msg_channel (snd x) \<noteq> None" for x
  proof -
    from ch obtain c where c: "msg_channel (snd x) = Some c" by auto
    from x obtain m where m: "m \<in> set original_track" "snd x = m\<lparr>time := 0\<rparr>"
      unfolding get_abs_times_def using get_abs_times_from_source by blast
    with assms(2) nm c have range: "0 \<le> c" "c < 16"
      by (auto simp: valid_channels_def list_all_iff)
    have xin: "x \<in> set (channel_events (int (nat c)) original_track)"
      using x nm c range by (simp add: channel_events_def)
    then have "nat c \<in> set (filter (\<lambda>c. channel_events (int c) original_track \<noteq> []) [0..<16])"
      using range by auto
    then have "?chan (nat c) \<in> set ?chans" unfolding set_map by (rule imageI)
    moreover have "x \<in> set (get_abs_times (?chan (nat c)))"
      using xin get_abs_times_channel_track by blast
    ultimately show ?thesis by auto
  qed
  have only: "is_meta m \<or> msg_channel m \<noteq> None" if tr: "tr \<in> set (file_tracks ?out)" and m: "m \<in> set tr" for tr m
  proof -
    from tr consider "tr = to_relative (meta_events original_track)"
      | c where "tr = ?chan c"
      by (auto split: if_splits)
    then show ?thesis
    proof cases
      case 1
      with m obtain x t where "x \<in> set (meta_events original_track)" "m = (snd x)\<lparr>time := t\<rparr>"
        unfolding to_relative_def using to_relative_from_source by blast
      then show ?thesis by (simp add: meta_events_def)
    next
      case (2 c)
      with m have "m = end_of_track \<or> m \<in> set (to_relative (sort_by_abs_time (channel_events (int c) original_track)))"
        by auto
      then show ?thesis
      proof
        assume "m = end_of_track"
        then show ?thesis by (simp add: end_of_track_def is_meta_def)
      next
        assume "m \<in> set (to_relative (sort_by_abs_time (channel_events (int c) original_track)))"
        then obtain x t where "x \<in> set (sort_by_abs_time (channel_events (int c) original_track))"
          "m = (snd x)\<lparr>time := t\<rparr>"
          unfolding to_relative_def using to_relative_from_source by blast
        then show ?thesis by (simp add: channel_events_def sort_by_abs_time_def)
      qed
    qed
  qed
  from res kept only show ?thesis by blast
qed

theorem convert_type0_to_type1_channel_messages_witness:
  "\<exists>out. convert_type0_to_type1 example_type0_file = Inr out
     \<and> (\<exists>tr \<in> set (file_tracks out).
           (10, \<lparr>time = 0, body = ChannelOther ''pitchwheel'' 0 [100]\<rparr>) \<in> set (get_abs_times tr))
     \<and> list_all (list_all (\<lambda>m. is_meta m \<or> msg_channel m \<noteq> None)) (file_tracks out)"
proof -
  let ?x = "(10 :: int, \<lparr>time = 0, body = ChannelOther ''pitchwheel'' 0 [100]\<rparr>)"
  have tracks: "file_tracks example_type0_file = example_type0_track # []"
    by (simp add: example_type0_file_def)
  have valid: "valid_channels example_type0_track"
    by code_simp
  have ev: "?x \<in> set (get_abs_times example_type0_track)"
    by (simp add: get_abs_times_def example_type0_track_def)
  have kind: "\<not> is_meta (snd ?x) \<and> msg_channel (snd ?x) \<noteq> None"
    by (simp add: is_meta_def msg_channel_def)
  from convert_type0_to_type1_channel_messages [OF tracks valid]
  obtain out where out: "convert_type0_to_type1 example_type0_file = Inr out"
    and kept: "\<forall>x \<in> set (get_abs_times example_type0_track).
           \<not> is_meta (snd x) \<and> msg_channel (snd x) \<noteq> None
           \<longrightarrow> (\<exists>tr \<in> set (file_tracks out). x \<in> set (get_abs_times tr))"
    and only: "\<forall>tr \<in> set (file_tracks out). \<forall>m \<in> set tr. is_meta m \<or> msg_channel m \<noteq> None"
    by blast
  from kept [rule_format, OF ev kind]
  have "\<exists>tr \<in> set (file_tracks out). ?x \<in> set (get_abs_times tr)" .
  moreover from only
  have "list_all (list_all (\<lambda>m. is_meta m \<or> msg_channel m \<noteq> None)) (file_tracks out)"
    by (simp add: list_all_iff)
  ultimately show ?thesis using out by blast
qed

end
